theory Spec2Isabelle
  imports Main "HOL-Library.Signed_Division" "HOL-Library.Monad_Syntax"
begin

section \<open>Machine integers of \<^verbatim>\<open>life.cpp\<close>\<close>

text \<open>
  The program mixes \<^verbatim>\<open>size_t\<close> (64-bit, unsigned) with \<^verbatim>\<open>int\<close> (32-bit, signed).
  Values are mathematical integers; every conversion and every operation that can
  leave the range is written out. Signed overflow and division by zero are undefined
  behaviour and are the value \<open>None\<close>.
\<close>

definition INT_MAX :: int where
  "INT_MAX = 2147483647"

definition INT_MIN :: int where
  "INT_MIN = - 2147483648"

definition int_of_size :: "nat \<Rightarrow> int" where
  \<comment> \<open>\<^verbatim>\<open>static_cast<int>(s)\<close>, and the conversion of a \<^verbatim>\<open>size_t\<close> assigned to an \<^verbatim>\<open>int\<close>\<close>
  "int_of_size s = signed_take_bit 31 (int s)"

definition size_of_int :: "int \<Rightarrow> nat" where
  \<comment> \<open>the conversion of an \<^verbatim>\<open>int\<close> operand to \<^verbatim>\<open>size_t\<close>\<close>
  "size_of_int k = nat (k mod 2 ^ 64)"

definition size_add :: "nat \<Rightarrow> nat \<Rightarrow> nat" where
  "size_add a b = (a + b) mod 2 ^ 64"

definition int_add :: "int \<Rightarrow> int \<Rightarrow> int option" where
  "int_add a b = (if INT_MIN \<le> a + b \<and> a + b \<le> INT_MAX then Some (a + b) else None)"

definition int_rem :: "int \<Rightarrow> int \<Rightarrow> int option" where
  \<comment> \<open>\<^verbatim>\<open>a % b\<close> on \<^verbatim>\<open>int\<close>: the remainder has the sign of \<open>a\<close>\<close>
  "int_rem a b = (if b = 0 \<or> (a = INT_MIN \<and> b = - 1) then None else Some (a smod b))"

section \<open>The board\<close>

type_synonym Vector = "bool list"
type_synonym Matrix = "Vector list"

definition at :: "'a list \<Rightarrow> nat \<Rightarrow> 'a option" where
  \<comment> \<open>\<^verbatim>\<open>v[i]\<close>: reading outside the vector is undefined behaviour\<close>
  "at v i = (if i < length v then Some (v ! i) else None)"

definition get :: "Matrix \<Rightarrow> nat \<Rightarrow> nat \<Rightarrow> bool option" where
  \<comment> \<open>\<^verbatim>\<open>board[y][x]\<close>\<close>
  "get board y x = do { row \<leftarrow> at board y; at row x }"

definition put :: "Matrix \<Rightarrow> nat \<Rightarrow> nat \<Rightarrow> bool \<Rightarrow> Matrix option" where
  \<comment> \<open>\<^verbatim>\<open>board[y][x] = v\<close>\<close>
  "put board y x v =
     (if y < length board \<and> x < length (board ! y)
      then Some (board[y := (board ! y)[x := v]]) else None)"

definition square :: "nat \<Rightarrow> Matrix \<Rightarrow> bool" where
  \<comment> \<open>the shape \<^verbatim>\<open>Matrix board(dim, Vector(dim, false))\<close> gives\<close>
  "square n board \<longleftrightarrow> length board = n \<and> list_all (\<lambda>row. length row = n) board"

section \<open>\<^verbatim>\<open>countNbors\<close>\<close>

definition wrap :: "nat \<Rightarrow> int \<Rightarrow> nat \<Rightarrow> int \<Rightarrow> int option" where
  \<comment> \<open>\<^verbatim>\<open>int x_p = (static_cast<int>(x) + j) % dim; x_p = x_p < 0 ? x_p + board.size() : x_p;\<close>
      with \<open>sz\<close> for \<^verbatim>\<open>board.size()\<close>; the conditional has type \<^verbatim>\<open>size_t\<close> and is converted
      back on assignment; the same two statements give \<^verbatim>\<open>y_p\<close> from \<open>y\<close> and \<open>i\<close>\<close>
  "wrap sz dim x j = do {
     s \<leftarrow> int_add (int_of_size x) j;
     r \<leftarrow> int_rem s dim;
     Some (int_of_size (if r < 0 then size_add (size_of_int r) sz else size_of_int r))
   }"

definition nbor_coords :: "Matrix \<Rightarrow> nat \<Rightarrow> nat \<Rightarrow> int \<Rightarrow> int \<Rightarrow> (int \<times> int) option" where
  "nbor_coords board x y i j = do {
     let dim = int_of_size (length board);
     x_p \<leftarrow> wrap (length board) dim x j;
     y_p \<leftarrow> wrap (length board) dim y i;
     Some (x_p, y_p)
   }"

fun count_loop :: "Matrix \<Rightarrow> nat \<Rightarrow> nat \<Rightarrow> (int \<times> int) list \<Rightarrow> nat \<Rightarrow> nat option" where
  \<comment> \<open>the two loops over the offsets still to visit; \<^verbatim>\<open>count\<close> is a \<^verbatim>\<open>size_t\<close> that starts
      at 0 and is incremented at most nine times\<close>
  "count_loop board x y [] count = Some count"
| "count_loop board x y ((i, j) # ds) count = do {
     (x_p, y_p) \<leftarrow> nbor_coords board x y i j;
     b \<leftarrow> get board (size_of_int y_p) (size_of_int x_p);
     count_loop board x y ds (if b then count + 1 else count)
   }"

definition offsets :: "(int \<times> int) list" where
  \<comment> \<open>\<^verbatim>\<open>for (int i = -1; i <= 1; ++i) for (int j = -1; j <= 1; ++j)\<close>, as pairs \<open>(i, j)\<close>\<close>
  "offsets = concat (map (\<lambda>i. map (\<lambda>j. (i, j)) [- 1, 0, 1]) [- 1, 0, 1])"

definition countNbors :: "Matrix \<Rightarrow> nat \<Rightarrow> nat \<Rightarrow> nat option" where
  "countNbors board x y = count_loop board x y offsets 0"

section \<open>\<^verbatim>\<open>life\<close>\<close>

definition life_cell :: "Matrix \<Rightarrow> Matrix \<Rightarrow> nat \<times> nat \<Rightarrow> Matrix option" where
  \<comment> \<open>the body of the inner loop at \<^verbatim>\<open>(y, x)\<close>\<close>
  "life_cell board newBoard c = (case c of (y, x) \<Rightarrow> do {
     count \<leftarrow> countNbors board x y;
     alive \<leftarrow> get board y x;
     if alive then (if count < 2 \<or> count > 3 then put newBoard y x False else Some newBoard)
     else (if count = 3 then put newBoard y x True else Some newBoard)
   })"

fun life_loop :: "Matrix \<Rightarrow> (nat \<times> nat) list \<Rightarrow> Matrix \<Rightarrow> Matrix option" where
  "life_loop board [] newBoard = Some newBoard"
| "life_loop board (c # cs) newBoard = do {
     nb \<leftarrow> life_cell board newBoard c;
     life_loop board cs nb
   }"

definition cells :: "nat \<Rightarrow> (nat \<times> nat) list" where
  \<comment> \<open>\<^verbatim>\<open>for (size_t y = 0; y < n; ++y) for (size_t x = 0; x < n; ++x)\<close>, as pairs \<open>(y, x)\<close>\<close>
  "cells n = concat (map (\<lambda>y. map (\<lambda>x. (y, x)) [0..<n]) [0..<n])"

definition life :: "Matrix \<Rightarrow> Matrix option" where
  \<comment> \<open>the new contents of \<^verbatim>\<open>board\<close>: \<^verbatim>\<open>Matrix newBoard(board); ...; board = newBoard;\<close>\<close>
  "life board = life_loop board (cells (length board)) board"

section \<open>\<^verbatim>\<open>randBoard\<close>\<close>

text \<open>
  \<^verbatim>\<open>rand()\<close> belongs to the C library: it is the parameter \<open>rand\<close>, a function from the
  generator state to the number drawn and the next state.
\<close>

fun rand_loop ::
  "('g \<Rightarrow> int \<times> 'g) \<Rightarrow> (nat \<times> nat) list \<Rightarrow> Matrix \<Rightarrow> 'g \<Rightarrow> (Matrix \<times> 'g) option" where
  "rand_loop rand [] board g = Some (board, g)"
| "rand_loop rand ((y, x) # cs) board g = (case rand g of (r, g') \<Rightarrow> do {
     m \<leftarrow> int_rem r 2;
     b \<leftarrow> put board y x (m \<noteq> 0);
     rand_loop rand cs b g'
   })"

definition randBoard :: "('g \<Rightarrow> int \<times> 'g) \<Rightarrow> Matrix \<Rightarrow> 'g \<Rightarrow> (Matrix \<times> 'g) option" where
  "randBoard rand board g = rand_loop rand (cells (length board)) board g"

section \<open>\<^verbatim>\<open>print\<close>\<close>

definition print :: "Matrix \<Rightarrow> Matrix option" where
  \<comment> \<open>the picture drawn: \<open>True\<close> is a block in colour pair 1, \<open>False\<close> a plain block; both
      loops run to \<^verbatim>\<open>board.size()\<close>\<close>
  "print board =
     those (map (\<lambda>y. those (map (\<lambda>x. get board y x) [0..<length board])) [0..<length board])"

section \<open>\<^verbatim>\<open>checkArgs\<close>\<close>

text \<open>
  \<^verbatim>\<open>std::stoi\<close> is the standard library's: leading white space is skipped, an optional sign
  and the longest run of decimal digits are read, no digit throws
  \<^verbatim>\<open>std::invalid_argument\<close>, a value outside \<^verbatim>\<open>int\<close> throws \<^verbatim>\<open>std::out_of_range\<close>.
\<close>

datatype exception = invalid_argument | out_of_range

definition isspace :: "char \<Rightarrow> bool" where
  "isspace c \<longleftrightarrow> (of_char c :: nat) \<in> {32, 9, 10, 11, 12, 13}"

definition isdigit :: "char \<Rightarrow> bool" where
  "isdigit c \<longleftrightarrow> 48 \<le> (of_char c :: nat) \<and> (of_char c :: nat) \<le> 57"

definition digit :: "char \<Rightarrow> int" where
  "digit c = int (of_char c) - 48"

definition stoi :: "string \<Rightarrow> exception + int" where
  "stoi str =
     (let s = dropWhile isspace str;
          neg = (s \<noteq> [] \<and> hd s = CHR ''-'');
          signed = (s \<noteq> [] \<and> (hd s = CHR ''-'' \<or> hd s = CHR ''+''));
          ds = takeWhile isdigit (if signed then tl s else s);
          v = (if neg then - 1 else 1) * foldl (\<lambda>a c. 10 * a + digit c) 0 ds
      in if ds = [] then Inl invalid_argument
         else if v < INT_MIN \<or> INT_MAX < v then Inl out_of_range
         else Inr v)"

definition checkArgs :: "string \<Rightarrow> string list \<Rightarrow> exception + bool \<times> string list" where
  \<comment> \<open>\<^verbatim>\<open>argVector\<close> is \<open>prog # args\<close> and \<^verbatim>\<open>argCount\<close> its length; the result is \<^verbatim>\<open>valid\<close>
      with the lines written to \<^verbatim>\<open>cout\<close>, or the exception \<^verbatim>\<open>stoi\<close> throws\<close>
  "checkArgs prog args =
     (case args of
        [a] \<Rightarrow>
          (case stoi a of
             Inl e \<Rightarrow> Inl e
           | Inr dim \<Rightarrow>
               if dim < 0 \<or> dim > 40 then Inr (False, [''Board dimensions should be (0, 40]''])
               else Inr (True, []))
      | _ \<Rightarrow> Inr (False, [''Usage: '' @ prog @ '' <board dimension>'']))"

section \<open>The loop of \<^verbatim>\<open>main\<close> and its two threads\<close>

text \<open>
  \<^verbatim>\<open>life\<close> takes its board by reference and \<^verbatim>\<open>print\<close> by value, so which \<^verbatim>\<open>Matrix\<close> object
  a thread works on matters. Objects live in a store, at addresses; \<open>fresh\<close> is the next
  unused address and \<open>screen\<close> the pictures drawn so far, oldest first. A started thread is
  a task: the function it runs and the address of the board it runs on. A task runs as one
  step, and the scheduler chooses which of the two tasks of a cycle runs first.
\<close>

type_synonym addr = nat

record world =
  objects :: "addr \<Rightarrow> Matrix option"
  fresh :: addr
  screen :: "Matrix list"

datatype task = Print addr | Life addr

fun task_addr :: "task \<Rightarrow> addr" where
  "task_addr (Print a) = a"
| "task_addr (Life a) = a"

definition life_at :: "addr \<Rightarrow> world \<Rightarrow> world option" where
  \<comment> \<open>\<^verbatim>\<open>life(board)\<close>, \<^verbatim>\<open>board\<close> naming the object at \<open>a\<close>\<close>
  "life_at a w = do {
     b \<leftarrow> objects w a;
     b' \<leftarrow> life b;
     Some (w\<lparr>objects := (objects w)(a \<mapsto> b')\<rparr>)
   }"

definition print_at :: "addr \<Rightarrow> world \<Rightarrow> world option" where
  \<comment> \<open>\<^verbatim>\<open>print\<close> on its own parameter object at \<open>a\<close>, which dies when \<^verbatim>\<open>print\<close> returns\<close>
  "print_at a w = do {
     b \<leftarrow> objects w a;
     p \<leftarrow> print b;
     Some (w\<lparr>objects := (objects w)(a := None), screen := screen w @ [p]\<rparr>)
   }"

definition copy_object :: "addr \<Rightarrow> world \<Rightarrow> (addr \<times> world) option" where
  \<comment> \<open>copy construction of a \<^verbatim>\<open>Matrix\<close> from the object at \<open>a\<close>\<close>
  "copy_object a w = do {
     b \<leftarrow> objects w a;
     Some (fresh w, w\<lparr>objects := (objects w)(fresh w \<mapsto> b), fresh := fresh w + 1\<rparr>)
   }"

record spawned =
  t1 :: task
  t2 :: task
  after :: world

definition spawn_tasks :: "addr \<Rightarrow> world \<Rightarrow> spawned option" where
  \<comment> \<open>\<^verbatim>\<open>thread t1(print, board); thread t2(life, ref(board));\<close> the constructor of
      \<^verbatim>\<open>t1\<close> copies \<^verbatim>\<open>board\<close> in the calling thread, that of \<^verbatim>\<open>t2\<close> copies the reference\<close>
  "spawn_tasks a w = do {
     (a1, w1) \<leftarrow> copy_object a w;
     Some \<lparr>t1 = Print a1, t2 = Life a, after = w1\<rparr>
   }"

fun run_task :: "task \<Rightarrow> world \<Rightarrow> world option" where
  "run_task (Print a) w = print_at a w"
| "run_task (Life a) w = life_at a w"

definition join_tasks :: "bool \<Rightarrow> spawned \<Rightarrow> world option" where
  \<comment> \<open>\<^verbatim>\<open>t1.join(); t2.join();\<close> with the thread that runs first chosen by the scheduler\<close>
  "join_tasks t1_first s =
     (if t1_first then run_task (t1 s) (after s) \<bind> run_task (t2 s)
      else run_task (t2 s) (after s) \<bind> run_task (t1 s))"

definition loop_body :: "bool \<Rightarrow> addr \<Rightarrow> world \<Rightarrow> world option" where
  \<comment> \<open>\<^verbatim>\<open>move(0, 0); life(board); thread t1(...); thread t2(...); t1.join(); t2.join();\<close>\<close>
  "loop_body t1_first a w = do {
     w1 \<leftarrow> life_at a w;
     s \<leftarrow> spawn_tasks a w1;
     join_tasks t1_first s
   }"

datatype status = EXIT_SUCCESS | EXIT_FAILURE

datatype outcome =
    Exit status
  | Uncaught exception
  | Undefined
  | Running

fun main_loop :: "addr \<Rightarrow> (int \<times> bool) list \<Rightarrow> world \<Rightarrow> outcome \<times> Matrix list" where
  \<comment> \<open>\<^verbatim>\<open>while (getch() != 'q')\<close>: each poll is the key \<^verbatim>\<open>getch\<close> returns and the scheduler's
      choice for that cycle; with no poll left the program is still running\<close>
  "main_loop a [] w = (Running, screen w)"
| "main_loop a ((key, t1_first) # polls) w =
     (if key = 113 then (Exit EXIT_SUCCESS, screen w)
      else case loop_body t1_first a w of
             None \<Rightarrow> (Undefined, screen w)
           | Some w' \<Rightarrow> main_loop a polls w')"

definition main ::
  "('g \<Rightarrow> int \<times> 'g) \<Rightarrow> string \<Rightarrow> string list \<Rightarrow> (int \<times> bool) list \<Rightarrow> 'g
     \<Rightarrow> outcome \<times> string list \<times> Matrix list" where
  \<comment> \<open>the result is how the program ends, the lines on \<^verbatim>\<open>cout\<close> and the pictures drawn;
      \<open>g\<close> is the generator state \<^verbatim>\<open>srand(time(0))\<close> leaves\<close>
  "main rand prog args polls g =
     (case checkArgs prog args of
        Inl e \<Rightarrow> (Uncaught e, [], [])
      | Inr (valid, out) \<Rightarrow>
          if valid then
            (case args of
               [] \<Rightarrow> (Undefined, out, [])
             | a # _ \<Rightarrow>
                 (case stoi a of
                    Inl e \<Rightarrow> (Uncaught e, out, [])
                  | Inr d \<Rightarrow>
                      let dim = size_of_int d;
                          board = replicate dim (replicate dim False)
                      in case randBoard rand board g of
                           None \<Rightarrow> (Undefined, out, [])
                         | Some (b, g') \<Rightarrow>
                             (case main_loop 0 polls
                                     \<lparr>objects = Map.empty(0 \<mapsto> b), fresh = 1, screen = []\<rparr> of
                                (r, pics) \<Rightarrow> (r, out, pics))))
          else (Exit EXIT_FAILURE, out, []))"

section \<open>What the loops compute\<close>

text \<open>
  The closed forms the loops are proved equal to. \<open>tor n x d\<close> is the coordinate \<open>x + d\<close>
  on a ring of \<open>n\<close> cells; \<open>tally\<close> counts the live cells at the given offsets from
  \<open>(x, y)\<close>; \<open>count9\<close> takes all nine offsets of the loops of \<^verbatim>\<open>countNbors\<close>.
\<close>

definition tor :: "nat \<Rightarrow> nat \<Rightarrow> int \<Rightarrow> nat" where
  "tor n x d = nat ((int x + d) mod int n)"

definition tally :: "Matrix \<Rightarrow> nat \<Rightarrow> nat \<Rightarrow> (int \<times> int) list \<Rightarrow> nat" where
  "tally board x y ds =
     length (filter (\<lambda>(i, j). board ! tor (length board) y i ! tor (length board) x j) ds)"

definition count9 :: "Matrix \<Rightarrow> nat \<Rightarrow> nat \<Rightarrow> nat" where
  "count9 board x y = tally board x y offsets"

definition rule :: "bool \<Rightarrow> nat \<Rightarrow> bool" where
  \<comment> \<open>the new state of a cell from its state and the count \<^verbatim>\<open>life\<close> obtained for it\<close>
  "rule alive count = (if alive then \<not> (count < 2 \<or> count > 3) else count = 3)"

definition next_gen :: "Matrix \<Rightarrow> Matrix" where
  "next_gen board =
     map (\<lambda>y. map (\<lambda>x. rule (board ! y ! x) (count9 board x y)) [0..<length board])
       [0..<length board]"

definition agrees :: "nat \<Rightarrow> Matrix \<Rightarrow> (nat \<times> nat) set \<Rightarrow> Matrix \<Rightarrow> bool" where
  \<comment> \<open>the loop invariant of \<^verbatim>\<open>life\<close>: \<open>nb\<close> holds the new state at the cells of \<open>S\<close> and the
      old state elsewhere\<close>
  "agrees n board S nb \<longleftrightarrow>
     square n nb \<and>
     (\<forall>y<n. \<forall>x<n. nb ! y ! x =
        (if (y, x) \<in> S then rule (board ! y ! x) (count9 board x y) else board ! y ! x))"

section \<open>The specification's notions\<close>

definition neighbours8 :: "Matrix \<Rightarrow> nat \<Rightarrow> nat \<Rightarrow> nat" where
  \<comment> \<open>the live cells among the 8 positions \<open>((x + dx) mod N, (y + dy) mod N)\<close>,
      \<open>dx, dy \<in> {-1, 0, 1}\<close>, \<open>(0, 0)\<close> excluded\<close>
  "neighbours8 board x y = tally board x y (filter (\<lambda>d. d \<noteq> (0, 0)) offsets)"

definition conway :: "bool \<Rightarrow> nat \<Rightarrow> bool" where
  \<comment> \<open>a live cell stays alive iff it has 2 or 3 live neighbours, a dead cell becomes alive
      iff it has exactly 3\<close>
  "conway alive nbors = (if alive then nbors = 2 \<or> nbors = 3 else nbors = 3)"

definition translate :: "int \<Rightarrow> int \<Rightarrow> Matrix \<Rightarrow> Matrix" where
  \<comment> \<open>every cell moved by \<open>(sx, sy)\<close> on the torus: the cell at \<open>(x, y)\<close> comes from
      \<open>((x - sx) mod N, (y - sy) mod N)\<close>\<close>
  "translate sx sy board =
     map (\<lambda>y. map (\<lambda>x. board ! tor (length board) y (- sy) ! tor (length board) x (- sx))
                 [0..<length board])
       [0..<length board]"

definition independent_copies :: "addr \<Rightarrow> spawned \<Rightarrow> bool" where
  \<comment> \<open>neither thread works on the board object of \<^verbatim>\<open>main\<close>, at \<open>a\<close>\<close>
  "independent_copies a s \<longleftrightarrow> task_addr (t1 s) \<noteq> a \<and> task_addr (t2 s) \<noteq> a"

section \<open>Boards used below\<close>

definition lone :: Matrix where
  "lone = [[False, False, False],
           [False, True,  False],
           [False, False, False]]"

definition pair :: Matrix where
  "pair = [[False, False, False, False, False],
           [False, False, False, False, False],
           [False, True,  True,  False, False],
           [False, False, False, False, False],
           [False, False, False, False, False]]"

definition blinker_h :: Matrix where
  "blinker_h = [[False, False, False, False, False],
                [False, False, False, False, False],
                [False, True,  True,  True,  False],
                [False, False, False, False, False],
                [False, False, False, False, False]]"

definition blinker_v :: Matrix where
  "blinker_v = [[False, False, False, False, False],
                [False, False, True,  False, False],
                [False, False, True,  False, False],
                [False, False, True,  False, False],
                [False, False, False, False, False]]"

definition plus :: Matrix where
  "plus = [[False, False, False, False, False],
           [False, False, True,  False, False],
           [False, True,  True,  True,  False],
           [False, False, True,  False, False],
           [False, False, False, False, False]]"

definition corner :: Matrix where
  "corner = [[True,  False, True],
             [False, False, False],
             [False, False, True]]"

definition diag :: Matrix where
  "diag = [[False, False, False, False, False],
           [False, True,  False, True,  False],
           [False, False, False, False, False],
           [False, True,  False, True,  False],
           [False, False, False, False, False]]"

definition blinker_edge :: Matrix where
  \<comment> \<open>\<open>blinker_h\<close> moved by \<open>(3, 2)\<close>: it lies across the left and right border\<close>
  "blinker_edge = [[False, False, False, False, False],
                   [False, False, False, False, False],
                   [False, False, False, False, False],
                   [False, False, False, False, False],
                   [True,  True,  False, False, True]]"

definition plus_edge :: Matrix where
  \<comment> \<open>\<open>plus\<close> moved by \<open>(3, 2)\<close>: it lies across all four borders\<close>
  "plus_edge = [[True,  False, False, False, False],
                [False, False, False, False, False],
                [False, False, False, False, False],
                [True,  False, False, False, False],
                [True,  True,  False, False, True]]"

definition world_blinker :: world where
  "world_blinker = \<lparr>objects = Map.empty(0 \<mapsto> blinker_h), fresh = 1, screen = []\<rparr>"

definition world0 :: world where
  "world0 = \<lparr>objects = Map.empty(0 \<mapsto> [[True]]), fresh = 1, screen = []\<rparr>"

definition counter :: "nat \<Rightarrow> int \<times> nat" where
  \<comment> \<open>a stand-in for \<^verbatim>\<open>rand\<close> in examples: 0, 1, 2, ...\<close>
  "counter g = (int g, g + 1)"

section \<open>The wrapped coordinates\<close>

lemma tor_less: "0 < n \<Longrightarrow> tor n x d < n"
  by (simp add: tor_def nat_less_iff)

lemma int_of_size_small: "int s \<le> INT_MAX \<Longrightarrow> int_of_size s = int s"
  unfolding int_of_size_def INT_MAX_def
  by (rule signed_take_bit_int_eq_self) simp_all

lemma int_of_size_of_int: "0 \<le> k \<Longrightarrow> k \<le> INT_MAX \<Longrightarrow> int_of_size (size_of_int k) = k"
proof -
  assume k: "0 \<le> k" "k \<le> INT_MAX"
  then have "k mod 2 ^ 64 = k" by (simp add: INT_MAX_def)
  then have "size_of_int k = nat k" by (simp add: size_of_int_def)
  then show ?thesis using k by (simp add: int_of_size_small)
qed

lemma smod_nonneg: "0 \<le> a \<Longrightarrow> 0 < b \<Longrightarrow> (a::int) smod b = a mod b"
  by (cases "a = 0") (simp_all add: signed_modulo_int_def)

lemma smod_minus_one: "1 < b \<Longrightarrow> (- 1 :: int) smod b = - 1"
  by (simp add: signed_modulo_int_def)

lemma wrap_eq:
  assumes n: "0 < n" "int n \<le> INT_MAX" and x: "x < n" and j: "j \<in> {- 1, 0, 1}"
  shows "wrap n (int_of_size n) x j = Some (int (tor n x j))"
proof -
  have xs: "int_of_size x = int x" and ns: "int_of_size n = int n"
    using n x by (simp_all add: int_of_size_small)
  have "INT_MIN \<le> int x + j \<and> int x + j \<le> INT_MAX"
    using n x j by (auto simp: INT_MIN_def INT_MAX_def)
  then have a: "int_add (int x) j = Some (int x + j)"
    by (simp add: int_add_def)
  have r: "int_rem (int x + j) (int n) = Some ((int x + j) smod int n)"
    using n by (simp add: int_rem_def)
  have w: "wrap n (int_of_size n) x j =
      Some (int_of_size (if (int x + j) smod int n < 0
            then size_add (size_of_int ((int x + j) smod int n)) n
            else size_of_int ((int x + j) smod int n)))"
    by (simp add: wrap_def xs ns a r)
  show ?thesis
  proof (cases "int x + j < 0")
    case False
    then have "(int x + j) smod int n = (int x + j) mod int n"
      using n by (simp add: smod_nonneg)
    moreover have nonneg: "\<not> (int x + j) mod int n < 0" using n by (simp add: not_less)
    moreover have "(int x + j) mod int n \<le> INT_MAX"
    proof -
      have "(int x + j) mod int n < int n" using n by simp
      then show ?thesis using n(2) by simp
    qed
    then have "int_of_size (size_of_int ((int x + j) mod int n)) = (int x + j) mod int n"
      using nonneg by (intro int_of_size_of_int) simp_all
    ultimately show ?thesis
      by (simp add: w tor_def)
  next
    case True
    then have xj: "int x + j = - 1" using j by auto
    show ?thesis
    proof (cases "n = 1")
      case True
      have s0: "(int x + j) smod int n = 0"
        using True xj by (simp add: signed_modulo_int_def)
      have t0: "tor n x j = 0"
        using True by (simp add: tor_def)
      show ?thesis unfolding w s0 t0 by (simp add: int_of_size_def size_of_int_def)
    next
      case False
      then have n1: "1 < int n" using n by simp
      have wrapped: "size_add (size_of_int (- 1)) n = n - 1"
      proof -
        have lt: "n - 1 < 18446744073709551616" using n by (simp add: INT_MAX_def)
        have "18446744073709551615 + n = (n - 1) + 18446744073709551616"
          using n by simp
        then have "(18446744073709551615 + n) mod 18446744073709551616
            = (n - 1) mod 18446744073709551616"
          by (simp only: mod_add_self2)
        also have "\<dots> = n - 1" using lt by (rule mod_less)
        finally show ?thesis by (simp add: size_add_def size_of_int_def)
      qed
      have back_int: "int_of_size (n - 1) = int (n - 1)"
        using n by (intro int_of_size_small) simp
      have sm: "(int x + j) smod int n = - 1"
        unfolding xj using n1 by (rule smod_minus_one)
      have "(- 1) mod int n = int n - 1"
        using n1 by (simp add: zmod_minus1)
      then have tm: "tor n x j = n - 1"
        using n by (simp add: tor_def xj nat_diff_distrib)
      have "wrap n (int_of_size n) x j = Some (int_of_size (size_add (size_of_int (- 1)) n))"
        unfolding w sm by simp
      then show ?thesis
        unfolding wrapped back_int tm .
    qed
  qed
qed







lemma square_nth: "square n board \<Longrightarrow> y < n \<Longrightarrow> length (board ! y) = n"
  by (simp add: square_def list_all_length)

lemma square_length: "square n board \<Longrightarrow> length board = n"
  by (simp add: square_def)

lemma get_square: "square n board \<Longrightarrow> y < n \<Longrightarrow> x < n \<Longrightarrow> get board y x = Some (board ! y ! x)"
  by (simp add: get_def at_def square_nth square_length)

lemma size_of_int_small: "int a \<le> INT_MAX \<Longrightarrow> size_of_int (int a) = a"
  by (simp add: size_of_int_def INT_MAX_def)

lemma offsets_range: "(i, j) \<in> set offsets \<Longrightarrow> i \<in> {- 1, 0, 1} \<and> j \<in> {- 1, 0, 1}"
  by (auto simp: offsets_def)

lemma nbor_coords_eq:
  assumes "square n board" "int n \<le> INT_MAX" "x < n" "y < n" "(i, j) \<in> set offsets"
  shows "nbor_coords board x y i j = Some (int (tor n x j), int (tor n y i))"
proof -
  have n: "0 < n" "length board = n" using assms by (simp_all add: square_def)
  have "i \<in> {- 1, 0, 1}" "j \<in> {- 1, 0, 1}" using assms(5) offsets_range by blast+
  then have "wrap n (int_of_size n) x j = Some (int (tor n x j))"
    "wrap n (int_of_size n) y i = Some (int (tor n y i))"
    using assms n by (simp_all only: wrap_eq)
  then show ?thesis by (simp add: nbor_coords_def n)
qed

lemma nbor_get_eq:
  assumes "square n board" "int n \<le> INT_MAX" "x < n" "y < n"
  shows "get board (size_of_int (int (tor n y i))) (size_of_int (int (tor n x j)))
         = Some (board ! tor n y i ! tor n x j)"
proof -
  have n: "0 < n" using assms by simp
  have "tor n y i < n" "tor n x j < n" using n by (simp_all add: tor_less)
  moreover from this have "size_of_int (int (tor n y i)) = tor n y i"
    "size_of_int (int (tor n x j)) = tor n x j"
    using assms(2) by (simp_all add: size_of_int_small)
  ultimately show ?thesis using assms(1) by (simp add: get_square)
qed

lemma count_loop_eq:
  assumes "square n board" "int n \<le> INT_MAX" "x < n" "y < n"
  shows "set ds \<subseteq> set offsets \<Longrightarrow> count_loop board x y ds c = Some (c + tally board x y ds)"
proof (induction ds arbitrary: c)
  case Nil
  then show ?case by (simp add: tally_def)
next
  case (Cons d ds)
  obtain i j where d: "d = (i, j)" by (cases d)
  have mem: "(i, j) \<in> set offsets" using Cons.prems d by simp
  have len: "length board = n" using assms(1) by (simp add: square_def)
  have step: "count_loop board x y (d # ds) c =
      count_loop board x y ds (if board ! tor n y i ! tor n x j then c + 1 else c)"
    using nbor_coords_eq [OF assms mem] nbor_get_eq [OF assms]
    by (simp add: d)
  have rest: "set ds \<subseteq> set offsets" using Cons.prems by simp
  show ?case
    unfolding step Cons.IH [OF rest] by (simp add: tally_def d len)
qed

lemma countNbors_eq:
  assumes "square n board" "int n \<le> INT_MAX" "x < n" "y < n"
  shows "countNbors board x y = Some (count9 board x y)"
  using count_loop_eq [OF assms, of offsets 0] by (simp add: countNbors_def count9_def)


lemma square_update:
  assumes "square n nb" "y < n"
  shows "square n (nb[y := (nb ! y)[x := v]])"
  using assms by (auto simp: square_def list_all_length nth_list_update)

lemma put_square:
  assumes "square n nb" "y < n" "x < n"
  shows "put nb y x v = Some (nb[y := (nb ! y)[x := v]])"
  using assms by (simp add: put_def square_nth square_length)

lemma agrees_write:
  assumes a: "agrees n board S nb" and yx: "y < n" "x < n"
    and v: "v = rule (board ! y ! x) (count9 board x y)"
  shows "agrees n board (insert (y, x) S) (nb[y := (nb ! y)[x := v]])"
proof -
  have sq: "square n nb" using a by (simp add: agrees_def)
  have len: "length nb = n" "length (nb ! y) = n"
    using sq yx by (simp_all add: square_length square_nth)
  have "(nb[y := (nb ! y)[x := v]]) ! y' ! x' =
      (if (y', x') \<in> insert (y, x) S then rule (board ! y' ! x') (count9 board x' y')
       else board ! y' ! x')" if lt: "y' < n" "x' < n" for y' x'
  proof -
    have old: "nb ! y' ! x' =
        (if (y', x') \<in> S then rule (board ! y' ! x') (count9 board x' y') else board ! y' ! x')"
      using a lt unfolding agrees_def by blast
    have upd: "(nb[y := (nb ! y)[x := v]]) ! y' ! x' =
        (if y' = y \<and> x' = x then v else nb ! y' ! x')"
      using len lt yx by (simp add: nth_list_update)
    show ?thesis
    proof (cases "y' = y \<and> x' = x")
      case True
      then show ?thesis unfolding upd using v by simp
    next
      case False
      then have "(if y' = y \<and> x' = x then v else nb ! y' ! x') = nb ! y' ! x'"
        by (rule if_not_P)
      moreover have "(y', x') \<in> insert (y, x) S \<longleftrightarrow> (y', x') \<in> S"
        using False by auto
      ultimately show ?thesis unfolding upd old by (simp only:)
    qed
  qed
  then show ?thesis
    using square_update [OF sq yx(1)] by (simp add: agrees_def)
qed

lemma agrees_keep:
  assumes a: "agrees n board S nb" and yx: "y < n" "x < n"
    and v: "board ! y ! x = rule (board ! y ! x) (count9 board x y)"
  shows "agrees n board (insert (y, x) S) nb"
  using assms by (auto simp: agrees_def)

lemma life_cell_step:
  assumes sq: "square n board" and n: "int n \<le> INT_MAX" and yx: "y < n" "x < n"
    and a: "agrees n board S nb"
  shows "\<exists>nb'. life_cell board nb (y, x) = Some nb' \<and> agrees n board (insert (y, x) S) nb'"
proof -
  let ?c = "count9 board x y"
  have sqn: "square n nb" using a by (simp add: agrees_def)
  have unfold: "life_cell board nb (y, x) =
      (if board ! y ! x
       then (if ?c < 2 \<or> ?c > 3 then put nb y x False else Some nb)
       else (if ?c = 3 then put nb y x True else Some nb))"
    by (simp add: life_cell_def countNbors_eq [OF sq n yx(2) yx(1)] get_square [OF sq yx])
  show ?thesis
  proof (cases "board ! y ! x = rule (board ! y ! x) ?c")
    case True
    then have "life_cell board nb (y, x) = Some nb"
      unfolding unfold by (auto simp: rule_def)
    then show ?thesis using agrees_keep [OF a yx True] by simp
  next
    case False
    then have "life_cell board nb (y, x) = put nb y x (rule (board ! y ! x) ?c)"
      unfolding unfold by (auto simp: rule_def)
    then show ?thesis
      using agrees_write [OF a yx refl] put_square [OF sqn yx] by simp
  qed
qed

lemma life_loop_agrees:
  assumes sq: "square n board" and n: "int n \<le> INT_MAX"
  shows "\<forall>(y, x) \<in> set cs. y < n \<and> x < n \<Longrightarrow> agrees n board S nb \<Longrightarrow>
         \<exists>nb'. life_loop board cs nb = Some nb' \<and> agrees n board (S \<union> set cs) nb'"
proof (induction cs arbitrary: S nb)
  case Nil
  then show ?case by simp
next
  case (Cons c cs)
  obtain y x where c: "c = (y, x)" by (cases c)
  have yx: "y < n" "x < n" using Cons.prems(1) c by auto
  obtain nb1 where s1: "life_cell board nb (y, x) = Some nb1"
    and a1: "agrees n board (insert (y, x) S) nb1"
    using life_cell_step [OF sq n yx Cons.prems(2)] by blast
  have "\<forall>(y, x) \<in> set cs. y < n \<and> x < n" using Cons.prems(1) by simp
  from Cons.IH [OF this a1]
  obtain nb' where "life_loop board cs nb1 = Some nb'"
    and "agrees n board (insert (y, x) S \<union> set cs) nb'" by blast
  then show ?case using s1 c by simp
qed

lemma agrees_start: "square n board \<Longrightarrow> agrees n board {} board"
  by (simp add: agrees_def)

lemma square_next_gen: "square n board \<Longrightarrow> square n (next_gen board)"
  by (simp add: square_def next_gen_def list_all_length)

lemma agrees_all:
  assumes sq: "square n board" and a: "agrees n board S nb"
    and S: "\<forall>y<n. \<forall>x<n. (y, x) \<in> S"
  shows "nb = next_gen board"
proof (rule nth_equalityI)
  have sqn: "square n nb" using a by (simp add: agrees_def)
  have len: "length board = n" using sq by (simp add: square_length)
  show l: "length nb = length (next_gen board)"
    using sqn by (simp add: next_gen_def square_length len)
  fix y assume "y < length nb"
  then have y: "y < n" using sqn by (simp add: square_length)
  show "nb ! y = next_gen board ! y"
  proof (rule nth_equalityI)
    show "length (nb ! y) = length (next_gen board ! y)"
      using y sqn by (simp add: next_gen_def len square_nth)
    fix x assume "x < length (nb ! y)"
    then have x: "x < n" using sqn y by (simp add: square_nth)
    show "nb ! y ! x = next_gen board ! y ! x"
      using a S x y by (simp add: agrees_def next_gen_def len)
  qed
qed

lemma set_cells: "set (cells n) = {(y, x). y < n \<and> x < n}"
  by (auto simp: cells_def)

lemma life_loop_eq:
  assumes sq: "square n board" and n: "int n \<le> INT_MAX"
    and cs: "set cs = {(y, x). y < n \<and> x < n}"
  shows "life_loop board cs board = Some (next_gen board)"
proof -
  have "\<forall>(y, x) \<in> set cs. y < n \<and> x < n" using cs by auto
  from life_loop_agrees [OF sq n this agrees_start [OF sq]]
  obtain nb' where r: "life_loop board cs board = Some nb'"
    and a: "agrees n board ({} \<union> set cs) nb'" by blast
  have "nb' = next_gen board"
    by (rule agrees_all [OF sq a]) (simp add: cs)
  then show ?thesis using r by simp
qed

lemma life_eq:
  assumes "square n board" "int n \<le> INT_MAX"
  shows "life board = Some (next_gen board)"
  using life_loop_eq [OF assms set_cells] assms(1) by (simp add: life_def square_length)

section \<open>Translation on the torus\<close>

lemma int_tor: "0 < n \<Longrightarrow> int (tor n x d) = (int x + d) mod int n"
  by (simp add: tor_def)

lemma tor_tor: "0 < n \<Longrightarrow> tor n (tor n x a) b = tor n (tor n x b) a"
proof -
  assume n: "0 < n"
  have "(int (tor n x a) + b) mod int n = (int x + a + b) mod int n"
    using n by (simp add: int_tor mod_add_left_eq)
  moreover have "(int (tor n x b) + a) mod int n = (int x + b + a) mod int n"
    using n by (simp add: int_tor mod_add_left_eq)
  ultimately show ?thesis by (simp add: tor_def add.commute add.left_commute)
qed

lemma length_translate: "length (translate sx sy board) = length board"
  by (simp add: translate_def)

lemma square_translate: "square n board \<Longrightarrow> square n (translate sx sy board)"
  by (simp add: square_def translate_def list_all_length)

lemma translate_nth:
  "length board = n \<Longrightarrow> y < n \<Longrightarrow> x < n \<Longrightarrow>
   translate sx sy board ! y ! x = board ! tor n y (- sy) ! tor n x (- sx)"
  by (simp add: translate_def)

lemma tally_translate:
  assumes len: "length board = n" and yx: "y < n" "x < n"
  shows "tally (translate sx sy board) x y ds = tally board (tor n x (- sx)) (tor n y (- sy)) ds"
proof -
  have n: "0 < n" using yx by simp
  have "translate sx sy board ! tor n y i ! tor n x j
      = board ! tor n (tor n y (- sy)) i ! tor n (tor n x (- sx)) j" for i j
    using translate_nth [OF len tor_less [OF n] tor_less [OF n]]
    by (simp add: tor_tor [OF n])
  then show ?thesis
    by (simp add: tally_def length_translate len)
qed

lemma next_gen_translate:
  assumes sq: "square n board"
  shows "next_gen (translate sx sy board) = translate sx sy (next_gen board)"
proof -
  have len: "length board = n" using sq by (simp add: square_length)
  have lenn: "length (next_gen board) = n" by (simp add: next_gen_def len)
  have cell: "rule (translate sx sy board ! y ! x) (count9 (translate sx sy board) x y)
      = next_gen board ! tor n y (- sy) ! tor n x (- sx)" if "y < n" "x < n" for y x
  proof -
    have n: "0 < n" using that by simp
    have "next_gen board ! tor n y (- sy) ! tor n x (- sx)
        = rule (board ! tor n y (- sy) ! tor n x (- sx))
               (count9 board (tor n x (- sx)) (tor n y (- sy)))"
      using tor_less [OF n] by (simp add: next_gen_def len)
    then show ?thesis
      using that by (simp add: count9_def tally_translate [OF len] translate_nth [OF len])
  qed
  show ?thesis
    unfolding next_gen_def [of "translate sx sy board"] translate_def [of sx sy "next_gen board"]
    by (simp add: length_translate len lenn cell)
qed

section \<open>\<^verbatim>\<open>randBoard\<close>, \<^verbatim>\<open>print\<close> and the loop body\<close>

lemma rand_loop_square:
  "square n board \<Longrightarrow> \<forall>(y, x) \<in> set cs. y < n \<and> x < n \<Longrightarrow>
   \<exists>b' g'. rand_loop rand cs board g = Some (b', g') \<and> square n b'"
proof (induction cs arbitrary: board g)
  case Nil
  then show ?case by simp
next
  case (Cons c cs)
  obtain y x where c: "c = (y, x)" by (cases c)
  obtain r g1 where r: "rand g = (r, g1)" by (cases "rand g")
  have yx: "y < n" "x < n" using Cons.prems(2) c by auto
  let ?b = "board[y := (board ! y)[x := (r smod 2 \<noteq> 0)]]"
  have sq: "square n ?b" by (rule square_update [OF Cons.prems(1) yx(1)])
  have rest: "\<forall>(y, x) \<in> set cs. y < n \<and> x < n" using Cons.prems(2) by simp
  have "rand_loop rand (c # cs) board g = rand_loop rand cs ?b g1"
    by (simp add: c r int_rem_def put_square [OF Cons.prems(1) yx])
  then show ?case using Cons.IH [OF sq rest] by simp
qed

lemma those_map_Some:
  "(\<And>x. x \<in> set xs \<Longrightarrow> f x = Some (g x)) \<Longrightarrow> those (map f xs) = Some (map g xs)"
  by (induction xs) simp_all

lemma print_square:
  assumes "square n board"
  shows "print board = Some board"
proof -
  have len: "length board = n" using assms by (simp add: square_length)
  have row: "those (map (\<lambda>x. get board y x) [0..<n]) = Some (board ! y)" if "y < n" for y
  proof -
    have "those (map (\<lambda>x. get board y x) [0..<n]) = Some (map (\<lambda>x. board ! y ! x) [0..<n])"
      by (rule those_map_Some) (use that assms in \<open>simp add: get_square\<close>)
    moreover have "map (\<lambda>x. board ! y ! x) [0..<n] = board ! y"
      using map_nth [of "board ! y"] square_nth [OF assms that] by simp
    ultimately show ?thesis by simp
  qed
  have "those (map (\<lambda>y. those (map (\<lambda>x. get board y x) [0..<n])) [0..<n])
      = Some (map (\<lambda>y. board ! y) [0..<n])"
    by (rule those_map_Some) (use row in simp)
  moreover have "map (\<lambda>y. board ! y) [0..<n] = board"
    using map_nth [of board] len by simp
  ultimately show ?thesis by (simp add: print_def len)
qed

lemma spawn_tasks_eq:
  assumes "objects w a = Some b"
  shows "spawn_tasks a w =
    Some \<lparr>t1 = Print (fresh w), t2 = Life a,
          after = w\<lparr>objects := (objects w)(fresh w \<mapsto> b), fresh := fresh w + 1\<rparr>\<rparr>"
  using assms by (simp add: spawn_tasks_def copy_object_def)

lemma life_at_eq:
  assumes "objects w a = Some b" "square n b" "int n \<le> INT_MAX"
  shows "life_at a w = Some (w\<lparr>objects := (objects w)(a \<mapsto> next_gen b)\<rparr>)"
  using assms by (simp add: life_at_def life_eq)

lemma print_at_eq:
  assumes "objects w a = Some b" "square n b"
  shows "print_at a w = Some (w\<lparr>objects := (objects w)(a := None), screen := screen w @ [b]\<rparr>)"
  using assms by (simp add: print_at_def print_square)

lemma join_tasks_eq:
  assumes b: "objects w a = Some b" "square n b" "int n \<le> INT_MAX"
    and c: "objects w a1 = Some c" "square n c" and ne: "a1 \<noteq> a"
  shows "join_tasks sched \<lparr>t1 = Print a1, t2 = Life a, after = w\<rparr> =
    Some (w\<lparr>objects := (objects w)(a \<mapsto> next_gen b, a1 := None), screen := screen w @ [c]\<rparr>)"
proof (cases sched)
  case True
  let ?w = "w\<lparr>objects := (objects w)(a1 := None), screen := screen w @ [c]\<rparr>"
  have "objects ?w a = Some b" using b(1) ne by simp
  from life_at_eq [OF this b(2,3)] print_at_eq [OF c] True ne
  show ?thesis by (simp add: join_tasks_def fun_upd_twist)
next
  case False
  let ?w = "w\<lparr>objects := (objects w)(a \<mapsto> next_gen b)\<rparr>"
  have "objects ?w a1 = Some c" using c(1) ne by simp
  from print_at_eq [OF this c(2)] life_at_eq [OF b] False
  show ?thesis by (simp add: join_tasks_def)
qed

lemma loop_body_eq:
  assumes b: "objects w a = Some b" "square n b" "int n \<le> INT_MAX" and a: "a < fresh w"
  shows "loop_body sched a w =
    Some (w\<lparr>objects := (objects w)(a \<mapsto> next_gen (next_gen b), fresh w := None),
            fresh := fresh w + 1, screen := screen w @ [next_gen b]\<rparr>)"
proof -
  let ?b1 = "next_gen b"
  let ?w1 = "w\<lparr>objects := (objects w)(a \<mapsto> ?b1)\<rparr>"
  let ?w2 = "?w1\<lparr>objects := (objects ?w1)(fresh ?w1 \<mapsto> ?b1), fresh := fresh ?w1 + 1\<rparr>"
  have s1: "life_at a w = Some ?w1" by (rule life_at_eq [OF b])
  have o1: "objects ?w1 a = Some ?b1" by simp
  have s2: "spawn_tasks a ?w1 = Some \<lparr>t1 = Print (fresh ?w1), t2 = Life a, after = ?w2\<rparr>"
    by (rule spawn_tasks_eq [OF o1])
  have sq1: "square n ?b1" by (rule square_next_gen [OF b(2)])
  have ne: "fresh w \<noteq> a" using a by simp
  have o2: "objects ?w2 a = Some ?b1" "objects ?w2 (fresh w) = Some ?b1"
    using ne by simp_all
  have s3: "join_tasks sched \<lparr>t1 = Print (fresh w), t2 = Life a, after = ?w2\<rparr> =
      Some (?w2\<lparr>objects := (objects ?w2)(a \<mapsto> next_gen ?b1, fresh w := None),
                screen := screen ?w2 @ [?b1]\<rparr>)"
    by (rule join_tasks_eq [OF o2(1) sq1 b(3) o2(2) sq1 ne])
  show ?thesis
    using s1 s2 s3 ne by (simp add: loop_body_def fun_upd_twist)
qed

section \<open>Evaluation on the example boards\<close>

lemmas closed_form = next_gen_def count9_def tally_def tor_def offsets_def rule_def upt_conv_Cons

lemma next_blinker: "next_gen blinker_h = plus"
  by (simp add: closed_form blinker_h_def plus_def)

lemma next_pair: "next_gen pair = pair"
  by (simp add: closed_form pair_def)

lemma stoi_zero: "stoi ''0'' = Inr 0"
  by (simp add: stoi_def isspace_def isdigit_def digit_def INT_MIN_def INT_MAX_def)

lemma stoi_abc: "stoi ''abc'' = Inl invalid_argument"
  by (simp add: stoi_def isspace_def isdigit_def digit_def)

section \<open>The count of \<^verbatim>\<open>countNbors\<close> and the eight neighbours\<close>

text \<open>
  The loops of \<^verbatim>\<open>countNbors\<close> run over all nine offsets, \<open>(0, 0)\<close> among them, so the
  count is the number of live cells among the eight neighbours plus one when the cell
  itself is alive.
\<close>

lemma filter_split:
  "length (filter P xs) = length (filter P (filter Q xs)) + length (filter P (filter (\<lambda>x. \<not> Q x) xs))"
  by (induction xs) simp_all

lemma tor_zero: "x < n \<Longrightarrow> tor n x 0 = x"
  by (simp add: tor_def)

lemma count9_neighbours8:
  assumes "length board = n" "x < n" "y < n"
  shows "count9 board x y = neighbours8 board x y + (if board ! y ! x then 1 else 0)"
proof -
  have "filter (\<lambda>d. \<not> d \<noteq> (0, 0)) offsets = [(0, 0)]"
    by (simp add: offsets_def)
  then have "tally board x y (filter (\<lambda>d. \<not> d \<noteq> (0, 0)) offsets) = (if board ! y ! x then 1 else 0)"
    using assms by (simp add: tally_def tor_zero)
  moreover have "tally board x y offsets =
      tally board x y (filter (\<lambda>d. d \<noteq> (0, 0)) offsets) +
      tally board x y (filter (\<lambda>d. \<not> d \<noteq> (0, 0)) offsets)"
    unfolding tally_def by (rule filter_split)
  ultimately show ?thesis by (simp add: count9_def neighbours8_def)
qed

lemma countNbors_neighbours8:
  assumes "square n board" "int n \<le> INT_MAX" "x < n" "y < n"
  shows "countNbors board x y = Some (neighbours8 board x y + (if board ! y ! x then 1 else 0))"
  using countNbors_eq [OF assms] count9_neighbours8 [OF square_length [OF assms(1)] assms(3,4)]
  by simp

lemma cells_take_in_range: "\<forall>(y, x) \<in> set (take k (cells n)). y < n \<and> x < n"
  using set_take_subset [of k "cells n"] by (auto simp: set_cells)

lemma life_loop_square:
  assumes "square n board" "int n \<le> INT_MAX" "\<forall>(y, x) \<in> set cs. y < n \<and> x < n"
  shows "\<exists>nb. life_loop board cs board = Some nb \<and> square n nb"
  using life_loop_agrees [OF assms agrees_start [OF assms(1)]] by (auto simp: agrees_def)

lemma next_plus: "next_gen plus = diag"
  by (simp add: closed_form plus_def diag_def)

lemma square_blinker_h: "square 5 blinker_h"
  by (simp add: square_def blinker_h_def)

lemma square_plus: "square 5 plus"
  by (simp add: square_def plus_def)

lemma life_blinker_h: "life blinker_h = Some plus"
  using life_eq [OF square_blinker_h] by (simp add: next_blinker INT_MAX_def)

lemma life_plus: "life plus = Some diag"
  using life_eq [OF square_plus] by (simp add: next_plus INT_MAX_def)

lemma translate_blinker_h: "translate 3 2 blinker_h = blinker_edge"
  by (simp add: translate_def tor_def upt_conv_Cons blinker_h_def blinker_edge_def)

lemma translate_plus: "translate 3 2 plus = plus_edge"
  by (simp add: translate_def tor_def upt_conv_Cons plus_def plus_edge_def)

lemma square_corner: "square 3 corner"
  by (simp add: square_def corner_def)

section \<open>The claims\<close>

text \<open>
  C1. The count used by the generation step is said to be the number of live cells among
  the 8 positions around \<open>(x, y)\<close>, the cell itself never counted. On the 3 by 3 board
  whose only live cell is the centre, the centre has no live neighbour, and
  \<^verbatim>\<open>countNbors\<close> returns 1: it counts the cell itself.
\<close>

theorem countNbors_counts_own_cell:
  "countNbors lone 1 1 = Some 1 \<and> neighbours8 lone 1 1 = 0"
proof -
  have "square 3 lone" by (simp add: square_def lone_def)
  then have "countNbors lone 1 1 = Some (count9 lone 1 1)"
    by (rule countNbors_eq) (simp_all add: INT_MAX_def)
  moreover have "count9 lone 1 1 = 1"
    by (simp add: count9_def tally_def tor_def offsets_def lone_def)
  moreover have "neighbours8 lone 1 1 = 0"
    by (simp add: neighbours8_def tally_def tor_def offsets_def lone_def)
  ultimately show ?thesis by simp
qed

text \<open>
  C2. A live cell is said to stay alive iff it has 2 or 3 live neighbours. On the 5 by 5
  board with two live cells side by side, each has exactly one live neighbour, and one step
  of \<^verbatim>\<open>life\<close> leaves the board as it is: both cells stay alive, since the count
  \<^verbatim>\<open>life\<close> tests includes the cell itself.
\<close>

theorem life_spares_cell_with_one_neighbour:
  "life pair = Some pair \<and> get pair 2 1 = Some True \<and> neighbours8 pair 1 2 = 1 \<and>
   \<not> conway True (neighbours8 pair 1 2)"
proof -
  have "square 5 pair" by (simp add: square_def pair_def)
  then have "life pair = Some pair"
    using life_eq [of 5 pair] by (simp add: next_pair INT_MAX_def)
  moreover have n8: "neighbours8 pair 1 2 = 1"
    by (simp add: neighbours8_def tally_def tor_def offsets_def pair_def)
  moreover have "get pair 2 1 = Some True"
    by (simp add: get_def at_def pair_def)
  ultimately show ?thesis by (simp add: conway_def)
qed

text \<open>
  C3. The program is said to accept exactly the dimensions \<open>0 < N \<le> 40\<close> and to print a
  message and exit with failure otherwise. \<^verbatim>\<open>checkArgs\<close> tests \<^verbatim>\<open>dim < 0\<close>, so dimension 0
  is accepted, nothing is printed and the program exits with success when \<^verbatim>\<open>q\<close> is
  pressed; for \<^verbatim>\<open>abc\<close> the exception of \<^verbatim>\<open>stoi\<close> is not caught and no message is printed.
\<close>

theorem main_accepts_dimension_zero:
  "checkArgs prog [''0''] = Inr (True, []) \<and>
   main rand prog [''0''] ((113, sched) # polls) g = (Exit EXIT_SUCCESS, [], []) \<and>
   main rand prog [''abc''] polls g = (Uncaught invalid_argument, [], [])"
  by (simp add: main_def checkArgs_def stoi_zero stoi_abc size_of_int_def randBoard_def cells_def)

text \<open>
  C4. One cycle of the loop of \<^verbatim>\<open>main\<close> applies \<^verbatim>\<open>life\<close> twice: for a square board \<open>b\<close>
  whose size fits \<^verbatim>\<open>int\<close>, both steps succeed, the board of \<^verbatim>\<open>main\<close> ends as the second
  generation after \<open>b\<close>, and the picture drawn in the cycle is the first generation after
  \<open>b\<close>, whichever thread runs first.
\<close>

theorem loop_body_two_generations:
  assumes "objects w a = Some b" "square n b" "int n \<le> INT_MAX" "a < fresh w"
  shows "\<exists>b1 b2 w'. life b = Some b1 \<and> life b1 = Some b2 \<and>
           loop_body sched a w = Some w' \<and> objects w' a = Some b2 \<and>
           screen w' = screen w @ [b1]"
  using loop_body_eq [OF assms] life_eq [OF assms(2,3)]
    life_eq [OF square_next_gen [OF assms(2)] assms(3)] assms(4)
  by simp

theorem loop_body_two_generations_witness:
  "objects world_blinker 0 = Some blinker_h \<and> square 5 blinker_h \<and> int 5 \<le> INT_MAX \<and>
   0 < fresh world_blinker \<and>
   life blinker_h = Some plus \<and> life plus = Some diag \<and>
   plus \<noteq> blinker_h \<and> diag \<noteq> plus \<and> diag \<noteq> blinker_h \<and>
   (\<exists>w'. loop_body True 0 world_blinker = Some w' \<and> objects w' 0 = Some diag \<and>
         screen w' = [plus]) \<and>
   (\<exists>w'. loop_body False 0 world_blinker = Some w' \<and> objects w' 0 = Some diag \<and>
         screen w' = [plus])"
proof -
  have o: "objects world_blinker 0 = Some blinker_h" and f: "0 < fresh world_blinker"
    by (simp_all add: world_blinker_def)
  have n: "int 5 \<le> INT_MAX" by (simp add: INT_MAX_def)
  have s: "screen world_blinker = []" by (simp add: world_blinker_def)
  have ne: "plus \<noteq> blinker_h \<and> diag \<noteq> plus \<and> diag \<noteq> blinker_h"
    by (simp add: plus_def blinker_h_def diag_def)
  have run: "\<exists>w'. loop_body sched 0 world_blinker = Some w' \<and> objects w' 0 = Some diag \<and>
         screen w' = [plus]" for sched
    using loop_body_two_generations [OF o square_blinker_h n f, of sched]
    by (simp add: life_blinker_h life_plus s)
  show ?thesis
    using o square_blinker_h n f ne run [of True] run [of False]
    by (simp add: life_blinker_h life_plus)
qed

text \<open>
  C5. The horizontal blinker on the 5 by 5 board is said to become the vertical blinker
  after one step. Under \<^verbatim>\<open>life\<close> the two end cells of the row survive (each counts itself
  and one neighbour), so the step gives a plus of five cells, not the vertical blinker.
\<close>

theorem life_blinker_becomes_plus:
  "life blinker_h = Some plus \<and> plus \<noteq> blinker_v"
proof -
  have "square 5 blinker_h" by (simp add: square_def blinker_h_def)
  then have "life blinker_h = Some plus"
    using life_eq [of 5 blinker_h] by (simp add: next_blinker INT_MAX_def)
  moreover have "plus \<noteq> blinker_v" by (simp add: plus_def blinker_v_def)
  ultimately show ?thesis by simp
qed

text \<open>
  C6. The generation step commutes with translation on the torus: for a square board whose
  size fits \<^verbatim>\<open>int\<close> and every shift \<open>(sx, sy)\<close>, \<^verbatim>\<open>life\<close> succeeds, and \<^verbatim>\<open>life\<close> of the
  translated board is the translated result of \<^verbatim>\<open>life\<close>. A pattern across the border
  therefore evolves as the same pattern away from it.
\<close>

theorem life_translate_commute:
  assumes "square n board" "int n \<le> INT_MAX"
  shows "life (translate sx sy board) = map_option (translate sx sy) (life board) \<and>
         life board \<noteq> None"
  using life_eq [OF assms] life_eq [OF square_translate [OF assms(1)] assms(2)]
  by (simp add: next_gen_translate [OF assms(1)])

theorem life_translate_commute_witness:
  "square 5 blinker_h \<and> int 5 \<le> INT_MAX \<and>
   translate 3 2 blinker_h = blinker_edge \<and>
   life blinker_h = Some plus \<and>
   life blinker_edge = Some plus_edge \<and>
   map_option (translate 3 2) (life blinker_h) = Some plus_edge \<and>
   plus_edge \<noteq> plus \<and> plus_edge \<noteq> blinker_edge"
proof -
  have n: "int 5 \<le> INT_MAX" by (simp add: INT_MAX_def)
  have "life (translate 3 2 blinker_h) = map_option (translate 3 2) (life blinker_h)"
    using life_translate_commute [OF square_blinker_h n, of 3 2] by simp
  then have "life blinker_edge = Some plus_edge"
    by (simp add: translate_blinker_h life_blinker_h translate_plus)
  moreover have "plus_edge \<noteq> plus \<and> plus_edge \<noteq> blinker_edge"
    by (simp add: plus_edge_def plus_def blinker_edge_def)
  ultimately show ?thesis
    using square_blinker_h n
    by (simp add: translate_blinker_h life_blinker_h translate_plus)
qed

text \<open>
  C7. The generation step is deterministic and does not depend on the order in which the
  cells are visited: for a square board whose size fits \<^verbatim>\<open>int\<close>, the loop of \<^verbatim>\<open>life\<close>
  run over any two lists of coordinates that cover exactly the cells of the board (in any
  order, repetitions allowed) ends with the same board, the one \<^verbatim>\<open>life\<close> returns. Every
  cell is decided from the old board alone.
\<close>

theorem life_order_independent:
  assumes "square n board" "int n \<le> INT_MAX"
    and "set cs = set (cells n)" "set cs' = set (cells n)"
  shows "\<exists>b'. life board = Some b' \<and> life_loop board cs board = Some b' \<and>
              life_loop board cs' board = Some b'"
  using life_eq [OF assms(1,2)] life_loop_eq [OF assms(1,2)] assms(3,4)
  by (simp add: set_cells)

theorem life_order_independent_witness:
  "square 3 corner \<and> int 3 \<le> INT_MAX \<and>
   set (rev (cells 3)) = set (cells 3) \<and> set (cells 3 @ [(1, 1)]) = set (cells 3) \<and>
   (\<exists>b'. life corner = Some b' \<and> life_loop corner (rev (cells 3)) corner = Some b' \<and>
         life_loop corner (cells 3 @ [(1, 1)]) corner = Some b')"
proof -
  have a: "set (rev (cells 3)) = set (cells 3)" by simp
  have b: "set (cells 3 @ [(1, 1)]) = set (cells 3)" by (auto simp: set_cells)
  have c: "int 3 \<le> INT_MAX" by (simp add: INT_MAX_def)
  show ?thesis
    using life_order_independent [OF square_corner c a b] a b c square_corner by blast
qed

text \<open>
  C8, as amended. The claim says each of the two threads gets an independently owned copy
  of the board, never an alias of the board of \<^verbatim>\<open>main\<close>. By design only \<^verbatim>\<open>print\<close> does:
  \<^verbatim>\<open>t1\<close> works on a fresh object that holds a copy of the board, \<^verbatim>\<open>t2\<close> is given
  \<^verbatim>\<open>ref(board)\<close> and updates the board of \<^verbatim>\<open>main\<close> in place: when \<^verbatim>\<open>t2\<close> has run, the object of
  \<^verbatim>\<open>main\<close> holds the next generation and the copy of \<^verbatim>\<open>t1\<close> still holds the board as it was.
  The two threads work on different objects, so whichever runs first the cycle ends in the
  same state: the board of \<^verbatim>\<open>main\<close> is the next generation and the picture drawn is the
  board as it was when the threads were started.
\<close>

theorem tasks_copy_and_reference:
  assumes "objects w a = Some b" "square n b" "int n \<le> INT_MAX" "a < fresh w"
  shows "\<exists>s b1 w1 w'. spawn_tasks a w = Some s \<and>
           t1 s = Print (fresh w) \<and> fresh w \<noteq> a \<and> objects (after s) (fresh w) = Some b \<and>
           t2 s = Life a \<and> objects (after s) a = Some b \<and>
           task_addr (t1 s) \<noteq> task_addr (t2 s) \<and>
           life b = Some b1 \<and>
           run_task (t2 s) (after s) = Some w1 \<and>
           objects w1 a = Some b1 \<and> objects w1 (fresh w) = Some b \<and> screen w1 = screen w \<and>
           join_tasks True s = Some w' \<and> join_tasks False s = Some w' \<and>
           objects w' a = Some b1 \<and> screen w' = screen w @ [b]"
proof -
  let ?w = "w\<lparr>objects := (objects w)(fresh w \<mapsto> b), fresh := fresh w + 1\<rparr>"
  let ?s = "\<lparr>t1 = Print (fresh w), t2 = Life a, after = ?w\<rparr>"
  let ?w1 = "?w\<lparr>objects := (objects ?w)(a \<mapsto> next_gen b)\<rparr>"
  let ?w' = "?w\<lparr>objects := (objects ?w)(a \<mapsto> next_gen b, fresh w := None),
               screen := screen ?w @ [b]\<rparr>"
  have ne: "fresh w \<noteq> a" using assms(4) by simp
  have s: "spawn_tasks a w = Some ?s" by (rule spawn_tasks_eq [OF assms(1)])
  have o: "objects ?w a = Some b" "objects ?w (fresh w) = Some b"
    using ne assms(1) by simp_all
  have l: "life b = Some (next_gen b)" by (rule life_eq [OF assms(2,3)])
  have r: "run_task (t2 ?s) (after ?s) = Some ?w1"
    using life_at_eq [OF o(1) assms(2,3)] by simp
  have j: "join_tasks sched ?s = Some ?w'" for sched
    by (rule join_tasks_eq [OF o(1) assms(2,3) o(2) assms(2) ne])
  have after_run: "objects ?w1 a = Some (next_gen b)" "objects ?w1 (fresh w) = Some b"
    "screen ?w1 = screen w"
    using ne by simp_all
  have after_join: "objects ?w' a = Some (next_gen b)" "screen ?w' = screen w @ [b]"
    using ne by simp_all
  have parts: "t1 ?s = Print (fresh w)" "t2 ?s = Life a" "after ?s = ?w"
    "task_addr (t1 ?s) \<noteq> task_addr (t2 ?s)"
    using ne by simp_all
  show ?thesis
    apply (rule exI [of _ ?s], rule exI [of _ "next_gen b"], rule exI [of _ ?w1],
        rule exI [of _ ?w'])
    using s ne o l r j [of True] j [of False] after_run after_join parts
    by (simp only: simp_thms)
qed

theorem tasks_copy_and_reference_witness:
  "objects world_blinker 0 = Some blinker_h \<and> square 5 blinker_h \<and> int 5 \<le> INT_MAX \<and>
   0 < fresh world_blinker \<and> plus \<noteq> blinker_h \<and>
   (\<exists>s w1 w'. spawn_tasks 0 world_blinker = Some s \<and> t1 s = Print 1 \<and> t2 s = Life 0 \<and>
        objects (after s) 1 = Some blinker_h \<and> objects (after s) 0 = Some blinker_h \<and>
        run_task (t2 s) (after s) = Some w1 \<and>
        objects w1 0 = Some plus \<and> objects w1 1 = Some blinker_h \<and>
        join_tasks True s = Some w' \<and> join_tasks False s = Some w' \<and>
        objects w' 0 = Some plus \<and> screen w' = [blinker_h])"
proof -
  have o: "objects world_blinker 0 = Some blinker_h" and f: "0 < fresh world_blinker"
    and f1: "fresh world_blinker = 1" and sc: "screen world_blinker = []"
    by (simp_all add: world_blinker_def)
  have n: "int 5 \<le> INT_MAX" by (simp add: INT_MAX_def)
  have ne: "plus \<noteq> blinker_h" by (simp add: plus_def blinker_h_def)
  from tasks_copy_and_reference [OF o square_blinker_h n f]
  have "\<exists>s w1 w'. spawn_tasks 0 world_blinker = Some s \<and> t1 s = Print 1 \<and> t2 s = Life 0 \<and>
        objects (after s) 1 = Some blinker_h \<and> objects (after s) 0 = Some blinker_h \<and>
        run_task (t2 s) (after s) = Some w1 \<and>
        objects w1 0 = Some plus \<and> objects w1 1 = Some blinker_h \<and>
        join_tasks True s = Some w' \<and> join_tasks False s = Some w' \<and>
        objects w' 0 = Some plus \<and> screen w' = [blinker_h]"
    unfolding f1 sc life_blinker_h by auto
  then show ?thesis using o square_blinker_h n f ne by simp
qed

theorem compute_task_aliases_board:
  "spawn_tasks 0 world0 =
     Some \<lparr>t1 = Print 1, t2 = Life 0,
           after = \<lparr>objects = Map.empty(0 \<mapsto> [[True]], 1 \<mapsto> [[True]]), fresh = 2, screen = []\<rparr>\<rparr> \<and>
   \<not> independent_copies 0
       \<lparr>t1 = Print 1, t2 = Life 0,
        after = \<lparr>objects = Map.empty(0 \<mapsto> [[True]], 1 \<mapsto> [[True]]), fresh = 2, screen = []\<rparr>\<rparr>"
  by (simp add: spawn_tasks_def copy_object_def world0_def independent_copies_def)

text \<open>
  C9. For a square board of size \<open>n \<ge> 1\<close> and every \<open>x, y < n\<close>, each of the nine pairs
  \<^verbatim>\<open>x_p\<close>, \<^verbatim>\<open>y_p\<close> that \<^verbatim>\<open>countNbors\<close> computes is defined and lies in \<open>[0, n)\<close>, each read
  \<^verbatim>\<open>board[y_p][x_p]\<close> is inside the board, and \<^verbatim>\<open>countNbors\<close> returns a count. The size
  is one \<^verbatim>\<open>static_cast<int>\<close> keeps, \<open>n \<le> INT_MAX\<close>; \<^verbatim>\<open>checkArgs\<close> lets \<^verbatim>\<open>main\<close> build boards
  of size at most 40.
\<close>

theorem countNbors_in_bounds:
  assumes sq: "square n board" and n: "1 \<le> n" "int n \<le> INT_MAX" and xy: "x < n" "y < n"
  shows "list_all (\<lambda>(i, j). \<exists>x_p y_p. nbor_coords board x y i j = Some (x_p, y_p) \<and>
            0 \<le> x_p \<and> x_p < int n \<and> 0 \<le> y_p \<and> y_p < int n \<and>
            get board (size_of_int y_p) (size_of_int x_p) \<noteq> None) offsets \<and>
         countNbors board x y \<noteq> None"
proof -
  have n0: "0 < n" using n by simp
  have "\<exists>x_p y_p. nbor_coords board x y i j = Some (x_p, y_p) \<and>
            0 \<le> x_p \<and> x_p < int n \<and> 0 \<le> y_p \<and> y_p < int n \<and>
            get board (size_of_int y_p) (size_of_int x_p) \<noteq> None"
    if "(i, j) \<in> set offsets" for i j
    using nbor_coords_eq [OF sq n(2) xy that] nbor_get_eq [OF sq n(2) xy, of i j]
      tor_less [OF n0, of x j] tor_less [OF n0, of y i]
    by simp
  then have "list_all (\<lambda>(i, j). \<exists>x_p y_p. nbor_coords board x y i j = Some (x_p, y_p) \<and>
            0 \<le> x_p \<and> x_p < int n \<and> 0 \<le> y_p \<and> y_p < int n \<and>
            get board (size_of_int y_p) (size_of_int x_p) \<noteq> None) offsets"
    unfolding list_all_iff by blast
  then show ?thesis using countNbors_eq [OF sq n(2) xy] by simp
qed

theorem countNbors_in_bounds_witness:
  "square 3 corner \<and> (1::nat) \<le> 3 \<and> int 3 \<le> INT_MAX \<and> (0::nat) < 3 \<and>
   list_all (\<lambda>(i, j). \<exists>x_p y_p. nbor_coords corner 0 0 i j = Some (x_p, y_p) \<and>
            0 \<le> x_p \<and> x_p < 3 \<and> 0 \<le> y_p \<and> y_p < 3 \<and>
            get corner (size_of_int y_p) (size_of_int x_p) \<noteq> None) offsets \<and>
   countNbors corner 0 0 \<noteq> None"
  using countNbors_in_bounds [of 3 corner 0 0] square_corner
  by (simp add: INT_MAX_def)

text \<open>
  C10. \<^verbatim>\<open>life\<close> and \<^verbatim>\<open>randBoard\<close> keep the shape of the board: on a square board of size
  \<open>n\<close> both succeed and return a square board of size \<open>n\<close>, whatever \<^verbatim>\<open>rand\<close> draws, and
  after any number \<open>k\<close> of iterations of their loops the board being written is square of
  size \<open>n\<close>: no row is ever resized.
\<close>

theorem shape_preserved:
  assumes "square n board" "int n \<le> INT_MAX"
  shows "(\<exists>b'. life board = Some b' \<and> square n b') \<and>
         (\<exists>b' g'. randBoard rand board g = Some (b', g') \<and> square n b') \<and>
         (\<forall>k. \<exists>nb. life_loop board (take k (cells n)) board = Some nb \<and> square n nb) \<and>
         (\<forall>k. \<exists>b' g'. rand_loop rand (take k (cells n)) board g = Some (b', g') \<and> square n b')"
proof -
  have "\<forall>(y, x) \<in> set (cells n). y < n \<and> x < n" by (simp add: set_cells)
  from rand_loop_square [OF assms(1) this]
  have "\<exists>b' g'. randBoard rand board g = Some (b', g') \<and> square n b'"
    using assms(1) by (simp add: randBoard_def square_length)
  moreover have "\<exists>b'. life board = Some b' \<and> square n b'"
    using life_eq [OF assms] square_next_gen [OF assms(1)] by simp
  moreover have "\<exists>nb. life_loop board (take k (cells n)) board = Some nb \<and> square n nb" for k
    by (rule life_loop_square [OF assms cells_take_in_range])
  moreover have "\<exists>b' g'. rand_loop rand (take k (cells n)) board g = Some (b', g') \<and> square n b'"
    for k
    by (rule rand_loop_square [OF assms(1) cells_take_in_range])
  ultimately show ?thesis by blast
qed

theorem shape_preserved_witness:
  "square 3 corner \<and> int 3 \<le> INT_MAX \<and>
   (\<exists>b'. life corner = Some b' \<and> square 3 b') \<and>
   (\<exists>b' g'. randBoard counter corner (0::nat) = Some (b', g') \<and> square 3 b')"
  using shape_preserved [of 3 corner counter 0] square_corner
  by (simp add: INT_MAX_def)

end
